theory Spec2Isabelle
  imports Main "HOL-Library.Word"
begin

section \<open>Go library functions used by the server\<close>

text \<open>
  The server (\<^verbatim>\<open>cmd/server/server.go\<close>) is built on a handful of functions of the Go
  standard library. They are embedded here after their library sources, for a Unix
  target (path separator \<^verbatim>\<open>/\<close>) on which \<^verbatim>\<open>int\<close> is 64 bits wide. A Go string is a
  sequence of bytes, as a HOL \<^typ>\<open>string\<close> is.
\<close>

type_synonym go_int = "64 word"

text \<open>\<^verbatim>\<open>strings.HasPrefix\<close> and \<^verbatim>\<open>strings.HasSuffix\<close>.\<close>

definition HasPrefix :: "string \<Rightarrow> string \<Rightarrow> bool" where
  "HasPrefix s pre = (length pre \<le> length s \<and> take (length pre) s = pre)"

definition HasSuffix :: "string \<Rightarrow> string \<Rightarrow> bool" where
  "HasSuffix s suf = (length suf \<le> length s \<and> drop (length s - length suf) s = suf)"

text \<open>\<^verbatim>\<open>strings.TrimSuffix\<close>: \<^verbatim>\<open>s\<close> without the trailing \<^verbatim>\<open>suf\<close>, or \<^verbatim>\<open>s\<close> itself.\<close>

definition TrimSuffix :: "string \<Rightarrow> string \<Rightarrow> string" where
  "TrimSuffix s suf = (if HasSuffix s suf then take (length s - length suf) s else s)"

text \<open>
  \<^verbatim>\<open>filepath.Ext\<close>: the loop
  \<^verbatim>\<open>for i := len(path) - 1; i >= 0 && !os.IsPathSeparator(path[i]); i--\<close>
  returns \<^verbatim>\<open>path[i:]\<close> at the first dot it meets and the empty string when it leaves
  the loop. \<open>Ext_scan path n\<close> is the loop about to inspect index \<open>n - 1\<close>.
\<close>

fun Ext_scan :: "string \<Rightarrow> nat \<Rightarrow> string" where
  "Ext_scan path 0 = []"
| "Ext_scan path (Suc i) =
     (if path ! i = CHR ''/'' then []
      else if path ! i = CHR ''.'' then drop i path
      else Ext_scan path i)"

definition Ext :: "string \<Rightarrow> string" where
  "Ext path = Ext_scan path (length path)"

text \<open>
  \<^verbatim>\<open>strings.LastIndex\<close>: the index of the last instance of \<^verbatim>\<open>sub\<close> in \<^verbatim>\<open>s\<close>;
  \<open>None\<close> stands for Go's \<^verbatim>\<open>-1\<close>.
\<close>

fun LastIndex :: "string \<Rightarrow> string \<Rightarrow> nat option" where
  "LastIndex [] sub = (if sub = [] then Some 0 else None)"
| "LastIndex (c # cs) sub =
     (case LastIndex cs sub of
        Some i \<Rightarrow> Some (Suc i)
      | None \<Rightarrow> if HasPrefix (c # cs) sub then Some 0 else None)"

text \<open>
  \<^verbatim>\<open>strconv.Atoi\<close>: an optional sign, then one or more decimal digits, denoting a value
  that fits \<^verbatim>\<open>int\<close>; every other string is an error (\<open>None\<close>). A digit is recognised
  as the library does: the byte minus \<^verbatim>\<open>'0'\<close> is at most 9.
\<close>

definition digit_val :: "char \<Rightarrow> nat option" where
  "digit_val c =
     (let v = (of_char c :: nat) in if 48 \<le> v \<and> v \<le> 57 then Some (v - 48) else None)"

fun parse_digits :: "string \<Rightarrow> nat \<Rightarrow> nat option" where
  "parse_digits [] n = Some n"
| "parse_digits (c # cs) n =
     (case digit_val c of None \<Rightarrow> None | Some d \<Rightarrow> parse_digits cs (n * 10 + d))"

definition Atoi :: "string \<Rightarrow> go_int option" where
  "Atoi s =
     (case s of
        [] \<Rightarrow> None
      | c # cs \<Rightarrow>
          let neg = (c = CHR ''-'');
              ds = (if c = CHR ''-'' \<or> c = CHR ''+'' then cs else s)
          in if ds = [] then None
             else (case parse_digits ds 0 of
                     None \<Rightarrow> None
                   | Some n \<Rightarrow>
                       let v = (if neg then - int n else int n)
                       in if - (2 ^ 63) \<le> v \<and> v < 2 ^ 63 then Some (word_of_int v)
                          else None))"

text \<open>The verb \<^verbatim>\<open>%d\<close> of \<^verbatim>\<open>fmt.Sprintf\<close> on an \<^verbatim>\<open>int\<close>: signed decimal.\<close>

definition digit_char :: "nat \<Rightarrow> char" where
  "digit_char d = char_of (48 + d)"

fun digits_of :: "nat \<Rightarrow> string" where
  "digits_of n =
     (if n < 10 then [digit_char n] else digits_of (n div 10) @ [digit_char (n mod 10)])"

declare digits_of.simps [simp del]

definition format_d :: "go_int \<Rightarrow> string" where
  "format_d w =
     (if sint w < 0 then CHR ''-'' # digits_of (nat (- sint w)) else digits_of (nat (sint w)))"

section \<open>The file index\<close>

definition copySuffix :: string where
  "copySuffix = ''_copy''"

definition getBareFilename :: "string \<Rightarrow> string" where
  "getBareFilename filename = TrimSuffix filename (Ext filename)"

text \<open>
  The struct \<^verbatim>\<open>FileIndex\<close>: the map \<^verbatim>\<open>index\<close>. Its embedded mutex serialises the
  calls of \<^verbatim>\<open>Resolve\<close>; a call is one atomic step on the map.
\<close>

record FileIndex =
  index :: "string \<rightharpoonup> go_int"

text \<open>
  One iteration of the inner loop of \<^verbatim>\<open>NewFileIndexFromSlice\<close>, from \<^verbatim>\<open>latestCopy\<close>
  before it to \<^verbatim>\<open>latestCopy\<close> after it; each \<^verbatim>\<open>continue\<close> keeps the value. The
  comparison of two \<^verbatim>\<open>int\<close>s is signed.
\<close>

definition scan_copy :: "string \<Rightarrow> go_int \<Rightarrow> string \<Rightarrow> go_int" where
  "scan_copy fileBare latestCopy copyName =
     (if \<not> HasPrefix copyName fileBare then latestCopy
      else
        let copyName' = drop (length fileBare) copyName;
            copyBare = getBareFilename copyName'
        in case LastIndex copyBare copySuffix of
             None \<Rightarrow> latestCopy
           | Some numStart \<Rightarrow>
               (case Atoi (drop (numStart + length copySuffix) copyBare) of
                  None \<Rightarrow> latestCopy
                | Some copyNum \<Rightarrow> if latestCopy <s copyNum then copyNum else latestCopy))"

definition latest_copy :: "string list \<Rightarrow> string \<Rightarrow> go_int" where
  "latest_copy filenames filename = foldl (scan_copy (getBareFilename filename)) 0 filenames"

text \<open>
  \<^verbatim>\<open>NewFileIndexFromSlice\<close>: the outer loop stores \<^verbatim>\<open>latestCopy\<close> under each filename in
  turn. The error it returns beside the index is always \<^verbatim>\<open>nil\<close>.
\<close>

definition NewFileIndexFromSlice :: "string list \<Rightarrow> FileIndex" where
  "NewFileIndexFromSlice filenames =
     \<lparr>index = foldl (\<lambda>m filename. m(filename \<mapsto> latest_copy filenames filename))
                Map.empty filenames\<rparr>"

text \<open>
  \<^verbatim>\<open>Resolve\<close>: the name returned and the index after the call.
\<close>

definition Resolve :: "FileIndex \<Rightarrow> string \<Rightarrow> string \<times> FileIndex" where
  "Resolve fi filename =
     (case index fi filename of
        None \<Rightarrow> (filename, fi\<lparr>index := (index fi)(filename \<mapsto> 0)\<rparr>)
      | Some copyNum \<Rightarrow>
          let bare = getBareFilename filename;
              ext = Ext filename;
              uniqueName = bare @ copySuffix @ format_d (copyNum + 1) @ ext;
              idx = (index fi)(filename \<mapsto> copyNum + 1)
          in (uniqueName, fi\<lparr>index := idx(uniqueName \<mapsto> 0)\<rparr>))"

text \<open>
  The name that \<^verbatim>\<open>Resolve\<close> formats for a filename already in the index, by
  \<^verbatim>\<open>fmt.Sprintf("%s%s%d%s", bare, copySuffix, copyNum+1, ext)\<close>, as a function of the
  number printed.
\<close>

definition candidate :: "string \<Rightarrow> go_int \<Rightarrow> string" where
  "candidate filename n = getBareFilename filename @ copySuffix @ format_d n @ Ext filename"

text \<open>
  A finite sequence of \<^verbatim>\<open>Resolve\<close> calls on one index, in order: the names returned
  and the index after the last call.
\<close>

fun Resolve_all :: "FileIndex \<Rightarrow> string list \<Rightarrow> string list \<times> FileIndex" where
  "Resolve_all fi [] = ([], fi)"
| "Resolve_all fi (filename # rest) =
     (let (uniqueName, fi') = Resolve fi filename;
          (names, fi'') = Resolve_all fi' rest
      in (uniqueName # names, fi''))"

section \<open>The seeding rule in the words of the specification\<close>

text \<open>
  The positions at which \<open>tok\<close> occurs in \<open>s\<close>, in increasing order, and the
  rightmost of them.
\<close>

definition occurrences :: "string \<Rightarrow> string \<Rightarrow> nat list" where
  "occurrences s tok =
     filter (\<lambda>i. take (length tok) (drop i s) = tok) [0..<Suc (length s)]"

definition rightmost :: "string \<Rightarrow> string \<Rightarrow> nat option" where
  "rightmost s tok = (if occurrences s tok = [] then None else Some (last (occurrences s tok)))"

text \<open>
  The copy number that a name \<open>C\<close> contributes for the base \<open>B\<close>: \<open>C\<close> starts with
  \<open>B\<close>; strip that prefix, strip the final extension of the remainder, find the
  rightmost copy suffix in what is left and parse the text after it as an integer.
  \<open>None\<close>: \<open>C\<close> contributes nothing.
\<close>

definition copy_number :: "string \<Rightarrow> string \<Rightarrow> int option" where
  "copy_number B C =
     (if HasPrefix C B then
        (let remainder = drop (length B) C;
             stem = getBareFilename remainder
         in case rightmost stem copySuffix of
              None \<Rightarrow> None
            | Some i \<Rightarrow> map_option sint (Atoi (drop (i + length copySuffix) stem)))
      else None)"

definition copy_numbers :: "string list \<Rightarrow> string \<Rightarrow> int list" where
  "copy_numbers names F = List.map_filter (copy_number (getBareFilename F)) names"

text \<open>
  The counter as the specification words it: the maximum copy number found, and 0 when
  no name contributes.
\<close>

definition max_copy_number :: "string list \<Rightarrow> string \<Rightarrow> int" where
  "max_copy_number names F =
     (if copy_numbers names F = [] then 0 else Max (set (copy_numbers names F)))"

section \<open>The connection handler\<close>

text \<open>
  \<^verbatim>\<open>receiveFile\<close> talks to a connection and to the file system. What they answer is
  the script of the connection: the outcome of \<^verbatim>\<open>fmt.Fscanf\<close> (the token, or \<open>None\<close>
  for an error), whether \<^verbatim>\<open>fmt.Fprint\<close> and \<^verbatim>\<open>os.Create\<close> fail, the outcome of each
  \<^verbatim>\<open>zr.Read\<close> in turn together with that of the \<^verbatim>\<open>file.Write\<close> which follows it, and
  whether \<^verbatim>\<open>zr.Close\<close> fails.
\<close>

datatype read_err = NoErr | EOF | OtherErr

record read_step =
  data :: string                \<comment> \<open>the bytes \<^verbatim>\<open>buf[:n]\<close> that \<^verbatim>\<open>zr.Read\<close> delivered\<close>
  rerr :: read_err              \<comment> \<open>the error \<^verbatim>\<open>zr.Read\<close> returned\<close>
  write_fail :: "nat option"    \<comment> \<open>\<open>Some m\<close>: \<^verbatim>\<open>file.Write\<close> failed after \<open>m\<close> bytes\<close>

record conn_script =
  scan :: "string option"
  send_err :: bool
  create_err :: bool
  reads :: "read_step list"
  close_err :: bool

datatype log_msg =
    CouldNotReadName
  | CouldNotSendName
  | CouldNotCreate string
  | Receiving string
  | CouldNotReceive string
  | CloseWarning string
  | Received string go_int

text \<open>
  What the handler can change: the shared index, the files of the working directory,
  the bytes written to the connection, the log, and whether the connection is closed.
\<close>

record world =
  fidx :: FileIndex
  disk :: "string \<rightharpoonup> string"
  sent :: string
  logged :: "log_msg list"
  closed :: bool

definition log_print :: "log_msg \<Rightarrow> world \<Rightarrow> world" where
  "log_print m w = w\<lparr>logged := logged w @ [m]\<rparr>"

definition file_write :: "string \<Rightarrow> string \<Rightarrow> world \<Rightarrow> world" where
  "file_write name bytes w =
     w\<lparr>disk := (disk w)(name \<mapsto> (case disk w name of None \<Rightarrow> bytes | Some old \<Rightarrow> old @ bytes))\<rparr>"

text \<open>
  The receive loop. It ends by \<^verbatim>\<open>break\<close> (\<open>Finished\<close>, with \<^verbatim>\<open>fileSize\<close>) or by
  \<^verbatim>\<open>return\<close> (\<open>Aborted\<close>); when the script has no further answer the handler is still
  waiting in \<^verbatim>\<open>zr.Read\<close> (\<open>Waiting\<close>).
\<close>

datatype loop_end = Finished go_int | Aborted | Waiting

fun receive_loop :: "string \<Rightarrow> read_step list \<Rightarrow> go_int \<Rightarrow> world \<Rightarrow> loop_end \<times> world" where
  "receive_loop serverFilename [] fileSize w = (Waiting, w)"
| "receive_loop serverFilename (r # rs) fileSize w =
     (if data r = [] then
        (if rerr r = EOF then (Finished fileSize, w)
         else (Aborted, log_print (CouldNotReceive serverFilename) w))
      else
        (case write_fail r of
           Some m \<Rightarrow>
             (Aborted, log_print (CouldNotReceive serverFilename)
                         (file_write serverFilename (take m (data r)) w))
         | None \<Rightarrow>
             receive_loop serverFilename rs (fileSize + of_nat (length (data r)))
               (file_write serverFilename (data r) w)))"

datatype status = Returned | Blocked

text \<open>
  \<^verbatim>\<open>receiveFile\<close> from \<^verbatim>\<open>os.Create\<close> on. The deferred \<^verbatim>\<open>con.Close\<close> runs on every
  return.
\<close>

definition store_stream :: "conn_script \<Rightarrow> string \<Rightarrow> world \<Rightarrow> status \<times> world" where
  "store_stream c serverFilename w =
     (if create_err c then
        (Returned, (log_print (CouldNotCreate serverFilename) w)\<lparr>closed := True\<rparr>)
      else
        (case receive_loop serverFilename (reads c) 0
                (log_print (Receiving serverFilename) (w\<lparr>disk := (disk w)(serverFilename \<mapsto> [])\<rparr>)) of
           (Waiting, w') \<Rightarrow> (Blocked, w')
         | (Aborted, w') \<Rightarrow> (Returned, w'\<lparr>closed := True\<rparr>)
         | (Finished fileSize, w') \<Rightarrow>
             (Returned,
              (log_print (Received serverFilename fileSize)
                 (if close_err c then log_print (CloseWarning serverFilename) w' else w'))
              \<lparr>closed := True\<rparr>)))"

definition receiveFile :: "conn_script \<Rightarrow> world \<Rightarrow> status \<times> world" where
  "receiveFile c w =
     (case scan c of
        None \<Rightarrow> (Returned, (log_print CouldNotReadName w)\<lparr>closed := True\<rparr>)
      | Some filename \<Rightarrow>
          (let (serverFilename, fi') = Resolve (fidx w) filename;
               w1 = w\<lparr>fidx := fi'\<rparr>;
               w2 = (if send_err c then log_print CouldNotSendName w1
                     else w1\<lparr>sent := sent w1 @ serverFilename\<rparr>)
           in store_stream c serverFilename w2))"

text \<open>
  The script of a stream that arrives whole: each chunk is read and written without
  error, then \<^verbatim>\<open>zr.Read\<close> returns no bytes and \<^verbatim>\<open>io.EOF\<close>.
\<close>

definition clean_stream :: "string list \<Rightarrow> read_step list" where
  "clean_stream chunks =
     map (\<lambda>d. \<lparr>data = d, rerr = NoErr, write_fail = None\<rparr>) chunks
       @ [\<lparr>data = [], rerr = EOF, write_fail = None\<rparr>]"

section \<open>Facts about the library functions\<close>


lemma Ext_scan_cases:
  "n \<le> length path \<Longrightarrow> Ext_scan path n = [] \<or> (\<exists>i<n. Ext_scan path n = drop i path)"
proof (induction n)
  case 0
  show ?case by simp
next
  case (Suc n)
  then have "Ext_scan path n = [] \<or> (\<exists>i<n. Ext_scan path n = drop i path)" by simp
  then show ?case by (auto intro: less_SucI)
qed

lemma TrimSuffix_drop:
  "i \<le> length s \<Longrightarrow> TrimSuffix s (drop i s) = take i s"
  by (simp add: TrimSuffix_def HasSuffix_def)

lemma bare_append_Ext: "getBareFilename f @ Ext f = f"
proof -
  from Ext_scan_cases [of "length f" f]
  consider "Ext f = []" | i where "i < length f" "Ext f = drop i f"
    by (auto simp: Ext_def)
  then show ?thesis
  proof cases
    case 1
    then show ?thesis by (simp add: getBareFilename_def TrimSuffix_def HasSuffix_def)
  next
    case 2
    then show ?thesis by (simp add: getBareFilename_def TrimSuffix_drop)
  qed
qed

lemma digit_val_digit_char: "d < 10 \<Longrightarrow> digit_val (digit_char d) = Some d"
  by (simp add: digit_val_def digit_char_def Let_def)

lemma digit_val_sign: "digit_val CHR ''-'' = None \<and> digit_val CHR ''+'' = None"
  by (simp add: digit_val_def)

lemma parse_digits_append:
  "parse_digits (xs @ ys) n =
     (case parse_digits xs n of None \<Rightarrow> None | Some m \<Rightarrow> parse_digits ys m)"
  by (induction xs arbitrary: n) (auto split: option.splits)

lemma parse_digits_of: "parse_digits (digits_of n) 0 = Some n"
proof (induction n rule: digits_of.induct)
  case (1 n)
  show ?case
  proof (cases "n < 10")
    case True
    then show ?thesis by (simp add: digits_of.simps [of n] digit_val_digit_char)
  next
    case False
    with 1 have "parse_digits (digits_of (n div 10)) 0 = Some (n div 10)" by simp
    with False show ?thesis
      by (simp add: digits_of.simps [of n] parse_digits_append digit_val_digit_char)
  qed
qed

lemma digits_of_hd: "\<exists>d cs. d < 10 \<and> digits_of n = digit_char d # cs"
proof (induction n rule: digits_of.induct)
  case (1 n)
  show ?case
  proof (cases "n < 10")
    case True
    then show ?thesis by (auto simp: digits_of.simps [of n])
  next
    case False
    with 1 obtain d cs where "d < 10" "digits_of (n div 10) = digit_char d # cs" by auto
    with False show ?thesis by (auto simp: digits_of.simps [of n])
  qed
qed

lemma Atoi_digits_of:
  "int n < 2 ^ 63 \<Longrightarrow> Atoi (digits_of n) = Some (word_of_int (int n))"
proof -
  assume b: "int n < 2 ^ 63"
  obtain d cs where d: "d < 10" "digits_of n = digit_char d # cs"
    using digits_of_hd by blast
  have ns: "digit_char d \<noteq> CHR ''-''" "digit_char d \<noteq> CHR ''+''"
    using digit_val_digit_char [OF d(1)] digit_val_sign by auto
  have "parse_digits (digit_char d # cs) 0 = Some n"
    using parse_digits_of [of n] d by simp
  then show ?thesis using b ns d
    by (simp add: Atoi_def Let_def del: parse_digits.simps)
qed

lemma Atoi_minus_digits_of:
  "int n \<le> 2 ^ 63 \<Longrightarrow> Atoi (CHR ''-'' # digits_of n) = Some (word_of_int (- int n))"
proof -
  assume b: "int n \<le> 2 ^ 63"
  obtain d cs where d: "d < 10" "digits_of n = digit_char d # cs"
    using digits_of_hd by blast
  have "parse_digits (digit_char d # cs) 0 = Some n"
    using parse_digits_of [of n] d by simp
  then show ?thesis using b d
    by (simp add: Atoi_def Let_def del: parse_digits.simps)
qed

lemma sint64_bounds: "- (2 ^ 63) \<le> sint (w :: go_int) \<and> sint (w :: go_int) < 2 ^ 63"
  using sint_ge [of w] sint_lt [of w] by simp

lemma Atoi_format_d: "Atoi (format_d w) = Some w"
proof (cases "sint w < 0")
  case True
  have "int (nat (- sint w)) \<le> 2 ^ 63" using True sint64_bounds [of w] by simp
  from Atoi_minus_digits_of [OF this] True show ?thesis by (simp add: format_d_def)
next
  case False
  have "int (nat (sint w)) < 2 ^ 63" using False sint64_bounds [of w] by simp
  from Atoi_digits_of [OF this] False show ?thesis by (simp add: format_d_def)
qed

lemma format_d_inj: "format_d a = format_d b \<Longrightarrow> a = b"
  by (metis Atoi_format_d option.inject)

section \<open>Resolving names\<close>

lemma candidate_neq: "candidate f n \<noteq> f"
proof
  assume "candidate f n = f"
  then have "length (candidate f n) = length (getBareFilename f @ Ext f)"
    by (simp add: bare_append_Ext)
  then show False by (simp add: candidate_def copySuffix_def)
qed

lemma candidate_inj: "candidate f a = candidate f b \<Longrightarrow> a = b"
  by (simp add: candidate_def format_d_inj)

lemma Resolve_absent:
  "index fi f = None \<Longrightarrow> Resolve fi f = (f, fi\<lparr>index := (index fi)(f \<mapsto> 0)\<rparr>)"
  by (simp add: Resolve_def)

lemma Resolve_present:
  "index fi f = Some k \<Longrightarrow>
   Resolve fi f = (candidate f (k + 1), fi\<lparr>index := (index fi)(f \<mapsto> k + 1, candidate f (k + 1) \<mapsto> 0)\<rparr>)"
  by (simp add: Resolve_def Let_def candidate_def)

lemma sint_succ: "sint (k :: go_int) < 2 ^ 63 - 1 \<Longrightarrow> sint (k + 1) = sint k + 1"
proof -
  assume a: "sint k < 2 ^ 63 - 1"
  have "sint (k + 1) = signed_take_bit 63 (sint k + 1)"
    by (simp add: sint_word_ariths)
  also have "\<dots> = sint k + 1"
    using a sint64_bounds [of k] by (intro signed_take_bit_int_eq_self) simp_all
  finally show ?thesis .
qed

lemma format_d_1: "format_d 1 = ''1''"
  by code_simp
lemma format_d_2: "format_d 2 = ''2''"
  by code_simp

lemma sint_succ_max:
  assumes "\<not> sint (k :: go_int) < 2 ^ 63 - 1"
  shows "sint (k + 1) = - (2 ^ 63)"
proof -
  have "sint k = sint (9223372036854775807 :: go_int)"
    using assms sint64_bounds [of k] by simp
  then have "k = 9223372036854775807" by (rule signed_word_eqI)
  then show ?thesis by simp
qed

text \<open>
  Claim C3, amended. \<^verbatim>\<open>Resolve(requested)\<close>: when \<open>requested\<close> is not a key of the map
  it is recorded with counter 0 and returned unchanged. When it is a key with counter
  \<open>k\<close>, let \<open>n\<close> be \<open>k + 1\<close> as Go's 64-bit \<^verbatim>\<open>int\<close> computes it: the integer successor
  of \<open>k\<close> when \<open>k\<close> is below the largest \<^verbatim>\<open>int\<close>, and the smallest \<^verbatim>\<open>int\<close> when \<open>k\<close> is
  the largest. The name returned is base, copy suffix, \<open>n\<close> in signed decimal and
  extension; the counter under \<open>requested\<close> becomes \<open>n\<close>, the name returned is recorded
  with counter 0, and no other key changes.
\<close>
theorem Resolve_cases:
  "(index fi requested = None \<longrightarrow>
      Resolve fi requested = (requested, fi\<lparr>index := (index fi)(requested \<mapsto> 0)\<rparr>))
   \<and> (index fi requested = Some k \<longrightarrow>
        (let n = k + 1;
             cand = getBareFilename requested @ ''_copy'' @ format_d n @ Ext requested;
             (name, fi') = Resolve fi requested
         in name = cand
            \<and> index fi' requested = Some n
            \<and> index fi' cand = Some 0
            \<and> (\<forall>other. other \<noteq> requested \<and> other \<noteq> cand \<longrightarrow> index fi' other = index fi other)
            \<and> sint n = (if sint k < 2 ^ 63 - 1 then sint k + 1 else - (2 ^ 63))))"
proof (intro conjI impI)
  assume "index fi requested = None"
  then show "Resolve fi requested = (requested, fi\<lparr>index := (index fi)(requested \<mapsto> 0)\<rparr>)"
    by (rule Resolve_absent)
next
  assume k: "index fi requested = Some k"
  have c: "getBareFilename requested @ ''_copy'' @ format_d (k + 1) @ Ext requested
             = candidate requested (k + 1)"
    by (simp add: candidate_def copySuffix_def)
  have s: "sint (k + 1) = (if sint k < 2 ^ 63 - 1 then sint k + 1 else - (2 ^ 63))"
    using sint_succ [of k] sint_succ_max [of k] by (cases "sint k < 2 ^ 63 - 1") simp_all
  show "let n = k + 1;
            cand = getBareFilename requested @ ''_copy'' @ format_d n @ Ext requested;
            (name, fi') = Resolve fi requested
        in name = cand
            \<and> index fi' requested = Some n
            \<and> index fi' cand = Some 0
            \<and> (\<forall>other. other \<noteq> requested \<and> other \<noteq> cand \<longrightarrow> index fi' other = index fi other)
            \<and> sint n = (if sint k < 2 ^ 63 - 1 then sint k + 1 else - (2 ^ 63))"
    unfolding Let_def c s using candidate_neq [of requested "k + 1"]
    by (simp add: Resolve_present [OF k])
qed

text \<open>
  Claim C6. From an index in which \<open>F\<close> has no entry, three successive calls
  \<^verbatim>\<open>Resolve(F)\<close> return \<open>F\<close> itself, then base, \<^verbatim>\<open>_copy1\<close> and extension, then base,
  \<^verbatim>\<open>_copy2\<close> and extension.
\<close>
theorem Resolve_three_times:
  assumes "index fi F = None"
  shows "fst (Resolve_all fi [F, F, F]) =
           [F,
            getBareFilename F @ ''_copy1'' @ Ext F,
            getBareFilename F @ ''_copy2'' @ Ext F]"
proof -
  let ?c1 = "candidate F 1" and ?c2 = "candidate F 2"
  let ?fi1 = "fi\<lparr>index := (index fi)(F \<mapsto> 0)\<rparr>"
  let ?fi2 = "?fi1\<lparr>index := (index ?fi1)(F \<mapsto> 1, ?c1 \<mapsto> 0)\<rparr>"
  have r1: "Resolve fi F = (F, ?fi1)" using assms by (rule Resolve_absent)
  have "index ?fi1 F = Some 0" by simp
  from Resolve_present [OF this] have r2: "Resolve ?fi1 F = (?c1, ?fi2)" by simp
  have "index ?fi2 F = Some 1" using candidate_neq [of F 1] by simp
  from Resolve_present [OF this] have r3: "fst (Resolve ?fi2 F) = ?c2" by simp
  have c1: "?c1 = getBareFilename F @ ''_copy1'' @ Ext F"
    by (simp add: candidate_def copySuffix_def format_d_1)
  have c2: "?c2 = getBareFilename F @ ''_copy2'' @ Ext F"
    by (simp add: candidate_def copySuffix_def format_d_2)
  show ?thesis using r1 r2 r3 c1 c2 by (simp add: split_beta)
qed

text \<open>
  Claim C7. On every index and for every name \<open>F\<close>, two successive calls
  \<^verbatim>\<open>Resolve(F)\<close> return two distinct names.
\<close>
theorem Resolve_twice_distinct:
  "distinct (fst (Resolve_all fi [F, F]))"
proof (cases "index fi F")
  case None
  let ?fi1 = "fi\<lparr>index := (index fi)(F \<mapsto> 0)\<rparr>"
  have r1: "Resolve fi F = (F, ?fi1)" using None by (rule Resolve_absent)
  have "index ?fi1 F = Some 0" by simp
  from Resolve_present [OF this] have r2: "fst (Resolve ?fi1 F) = candidate F 1" by simp
  show ?thesis using r1 r2 candidate_neq [of F 1] by (simp add: split_beta)
next
  case (Some k)
  let ?c = "candidate F (k + 1)"
  let ?fi1 = "fi\<lparr>index := (index fi)(F \<mapsto> k + 1, ?c \<mapsto> 0)\<rparr>"
  have r1: "Resolve fi F = (?c, ?fi1)" using Some by (rule Resolve_present)
  have "index ?fi1 F = Some (k + 1)" using candidate_neq [of F "k + 1"] by simp
  from Resolve_present [OF this] have r2: "fst (Resolve ?fi1 F) = candidate F (k + 1 + 1)" by simp
  have "candidate F (k + 1) \<noteq> candidate F (k + 1 + 1)"
    using candidate_inj [of F "k + 1" "k + 1 + 1"] by auto
  then show ?thesis using r1 r2 by (simp add: split_beta)
qed

lemma Ext_scan_dotfile:
  assumes "CHR ''.'' \<notin> set rest" "CHR ''/'' \<notin> set rest"
  shows "n \<le> length rest \<Longrightarrow> Ext_scan (CHR ''.'' # rest) (Suc n) = CHR ''.'' # rest"
proof (induction n)
  case 0
  show ?case by simp
next
  case (Suc n)
  then have "rest ! n \<in> set rest" by simp
  with assms have "rest ! n \<noteq> CHR ''.''" "rest ! n \<noteq> CHR ''/''" by auto
  with Suc show ?case by simp
qed

lemma Ext_dotfile:
  "CHR ''.'' \<notin> set rest \<Longrightarrow> CHR ''/'' \<notin> set rest \<Longrightarrow> Ext (CHR ''.'' # rest) = CHR ''.'' # rest"
  using Ext_scan_dotfile [of rest "length rest"] by (simp add: Ext_def)

lemma eval_Ext_a_txt: "Ext ''a.txt'' = ''.txt''"
  by code_simp
lemma eval_bare_a_txt: "getBareFilename ''a.txt'' = ''a''"
  by code_simp
lemma eval_format_d_5: "format_d 5 = ''5''"
  by code_simp

text \<open>
  The amended C3 at \<^verbatim>\<open>a.txt\<close>: absent, present with counter 4, and present with the
  largest \<^verbatim>\<open>int\<close> as counter.
\<close>
theorem Resolve_cases_witness:
  "Resolve \<lparr>index = Map.empty\<rparr> ''a.txt'' = (''a.txt'', \<lparr>index = [''a.txt'' \<mapsto> 0]\<rparr>)
   \<and> sint (4 :: go_int) < 2 ^ 63 - 1
   \<and> fst (Resolve \<lparr>index = [''a.txt'' \<mapsto> 4]\<rparr> ''a.txt'') = ''a_copy5.txt''
   \<and> index (snd (Resolve \<lparr>index = [''a.txt'' \<mapsto> 4]\<rparr> ''a.txt'')) ''a.txt'' = Some 5
   \<and> index (snd (Resolve \<lparr>index = [''a.txt'' \<mapsto> 4]\<rparr> ''a.txt'')) ''a_copy5.txt'' = Some 0
   \<and> \<not> sint (9223372036854775807 :: go_int) < 2 ^ 63 - 1
   \<and> map_option sint
         (index (snd (Resolve \<lparr>index = [''a.txt'' \<mapsto> 9223372036854775807]\<rparr> ''a.txt'')) ''a.txt'')
       = Some (- (2 ^ 63))"
proof -
  have a: "Resolve \<lparr>index = Map.empty\<rparr> ''a.txt'' = (''a.txt'', \<lparr>index = [''a.txt'' \<mapsto> 0]\<rparr>)"
    using Resolve_cases [of "\<lparr>index = Map.empty\<rparr>" "''a.txt''" 0] by simp
  have b: "fst (Resolve \<lparr>index = [''a.txt'' \<mapsto> 4]\<rparr> ''a.txt'') = ''a_copy5.txt''
           \<and> index (snd (Resolve \<lparr>index = [''a.txt'' \<mapsto> 4]\<rparr> ''a.txt'')) ''a.txt'' = Some 5
           \<and> index (snd (Resolve \<lparr>index = [''a.txt'' \<mapsto> 4]\<rparr> ''a.txt'')) ''a_copy5.txt'' = Some 0"
    using Resolve_cases [of "\<lparr>index = [''a.txt'' \<mapsto> 4]\<rparr>" "''a.txt''" 4]
    by (simp add: eval_Ext_a_txt eval_bare_a_txt eval_format_d_5 split_beta Let_def)
  have m: "\<not> sint (9223372036854775807 :: go_int) < 2 ^ 63 - 1"
    by simp
  have "index \<lparr>index = [''a.txt'' \<mapsto> 9223372036854775807]\<rparr> ''a.txt'' = Some 9223372036854775807"
    by simp
  with Resolve_cases [of "\<lparr>index = [''a.txt'' \<mapsto> 9223372036854775807]\<rparr>" "''a.txt''"
                         9223372036854775807]
  have "index (snd (Resolve \<lparr>index = [''a.txt'' \<mapsto> 9223372036854775807]\<rparr> ''a.txt'')) ''a.txt''
          = Some (9223372036854775807 + 1)
        \<and> sint (9223372036854775807 + 1 :: go_int)
            = (if sint (9223372036854775807 :: go_int) < 2 ^ 63 - 1
               then sint (9223372036854775807 :: go_int) + 1 else - (2 ^ 63))"
    unfolding Let_def split_beta by blast
  with m have c: "map_option sint
         (index (snd (Resolve \<lparr>index = [''a.txt'' \<mapsto> 9223372036854775807]\<rparr> ''a.txt'')) ''a.txt'')
       = Some (- (2 ^ 63))"
    by (simp del: sint_numeral)
  show ?thesis using a b c by simp
qed

text \<open>C6 on the empty index and \<^verbatim>\<open>a.txt\<close>.\<close>
theorem Resolve_three_times_witness:
  "index \<lparr>index = Map.empty\<rparr> ''a.txt'' = None
   \<and> fst (Resolve_all \<lparr>index = Map.empty\<rparr> [''a.txt'', ''a.txt'', ''a.txt''])
        = [''a.txt'', ''a_copy1.txt'', ''a_copy2.txt'']"
  using Resolve_three_times [of "\<lparr>index = Map.empty\<rparr>" "''a.txt''"]
  by (simp add: eval_Ext_a_txt eval_bare_a_txt)

text \<open>C7 on an index that holds \<^verbatim>\<open>a.txt\<close> with counter 4.\<close>
theorem Resolve_twice_distinct_witness:
  "distinct (fst (Resolve_all \<lparr>index = [''a.txt'' \<mapsto> 4]\<rparr> [''a.txt'', ''a.txt'']))"
  using Resolve_twice_distinct [of "\<lparr>index = [''a.txt'' \<mapsto> 4]\<rparr>" "''a.txt''"] .

text \<open>
  Claim C10, amended. For a requested name that starts with a dot and has no other dot
  and no path separator, the whole name is its extension and its base is empty; when
  the name is in the index with counter \<open>k\<close>, \<^verbatim>\<open>Resolve\<close> returns the copy suffix and
  \<open>k + 1\<close> in front of the whole name.
\<close>
theorem dotfile_copy:
  assumes "CHR ''.'' \<notin> set rest" and "CHR ''/'' \<notin> set rest"
  shows "Ext (CHR ''.'' # rest) = CHR ''.'' # rest
         \<and> getBareFilename (CHR ''.'' # rest) = []
         \<and> (index fi (CHR ''.'' # rest) = Some k \<longrightarrow>
              fst (Resolve fi (CHR ''.'' # rest)) = ''_copy'' @ format_d (k + 1) @ CHR ''.'' # rest)"
proof -
  let ?name = "CHR ''.'' # rest"
  have e: "Ext ?name = ?name" using assms by (rule Ext_dotfile)
  have b: "getBareFilename ?name = []"
    using bare_append_Ext [of ?name] unfolding e by simp
  have "fst (Resolve fi ?name) = ''_copy'' @ format_d (k + 1) @ ?name"
    if "index fi ?name = Some k"
    using Resolve_present [OF that] by (simp add: candidate_def e b copySuffix_def)
  with e b show ?thesis by blast
qed

text \<open>The amended C10 at \<^verbatim>\<open>.bashrc\<close> with counter 0.\<close>
theorem dotfile_copy_witness:
  "CHR ''.'' \<notin> set ''bashrc'' \<and> CHR ''/'' \<notin> set ''bashrc''
   \<and> index \<lparr>index = [''.bashrc'' \<mapsto> 0]\<rparr> ''.bashrc'' = Some 0
   \<and> Ext ''.bashrc'' = ''.bashrc'' \<and> getBareFilename ''.bashrc'' = []
   \<and> fst (Resolve \<lparr>index = [''.bashrc'' \<mapsto> 0]\<rparr> ''.bashrc'') = ''_copy1.bashrc''"
  using dotfile_copy [of "''bashrc''" "\<lparr>index = [''.bashrc'' \<mapsto> 0]\<rparr>" 0]
  by (simp add: format_d_1)

text \<open>
  C10 as stated fails at \<^verbatim>\<open>.a/b\<close>, whose only dot is its first byte:
  \<^verbatim>\<open>filepath.Ext\<close> stops at the separator, the extension is empty, the base is the
  whole name, and \<^verbatim>\<open>Resolve\<close> appends the copy suffix.
\<close>
theorem dotfile_separator_counterexample:
  "Ext ''.a/b'' \<noteq> ''.a/b''
   \<and> getBareFilename ''.a/b'' \<noteq> []
   \<and> fst (Resolve \<lparr>index = [''.a/b'' \<mapsto> 0]\<rparr> ''.a/b'') = ''.a/b_copy1''
   \<and> fst (Resolve \<lparr>index = [''.a/b'' \<mapsto> 0]\<rparr> ''.a/b'') \<noteq> ''_copy1.a/b''"
  by code_simp

text \<open>
  Claim C1 fails on the code. On the index seeded from no names, the calls
  \<^verbatim>\<open>Resolve("a_copy1.txt")\<close>, \<^verbatim>\<open>Resolve("a.txt")\<close>, \<^verbatim>\<open>Resolve("a.txt")\<close> return
  \<^verbatim>\<open>a_copy1.txt\<close> twice: \<^verbatim>\<open>Resolve\<close> never looks the formatted name up in the index.
\<close>
theorem Resolve_repeats_name:
  "fst (Resolve_all (NewFileIndexFromSlice []) [''a_copy1.txt'', ''a.txt'', ''a.txt''])
     = [''a_copy1.txt'', ''a.txt'', ''a_copy1.txt'']
   \<and> \<not> distinct (fst (Resolve_all (NewFileIndexFromSlice [])
                          [''a_copy1.txt'', ''a.txt'', ''a.txt'']))"
  by code_simp

text \<open>
  Claim C2 fails on the code. After \<^verbatim>\<open>Resolve("a_copy1.txt")\<close> twice and
  \<^verbatim>\<open>Resolve("a.txt")\<close> once, the counter of \<^verbatim>\<open>a_copy1.txt\<close> is 1; the next
  \<^verbatim>\<open>Resolve("a.txt")\<close> returns \<^verbatim>\<open>a_copy1.txt\<close> and stores 0 under it.
\<close>
theorem Resolve_resets_counter:
  "index (snd (Resolve_all (NewFileIndexFromSlice []) [''a_copy1.txt'', ''a_copy1.txt'', ''a.txt'']))
       ''a_copy1.txt'' = Some 1
   \<and> fst (Resolve (snd (Resolve_all (NewFileIndexFromSlice [])
                              [''a_copy1.txt'', ''a_copy1.txt'', ''a.txt''])) ''a.txt'')
       = ''a_copy1.txt''
   \<and> index (snd (Resolve (snd (Resolve_all (NewFileIndexFromSlice [])
                                     [''a_copy1.txt'', ''a_copy1.txt'', ''a.txt''])) ''a.txt''))
       ''a_copy1.txt'' = Some 0"
  by code_simp

section \<open>Seeding the index\<close>

lemma occurrences_Nil: "occurrences [] tok = (if tok = [] then [0] else [])"
  by (auto simp: occurrences_def)

lemma take_eq_HasPrefix: "take (length tok) s = tok \<longleftrightarrow> HasPrefix s tok"
proof
  assume t: "take (length tok) s = tok"
  then have "length (take (length tok) s) = length tok" by simp
  then have "length tok \<le> length s" by simp
  with t show "HasPrefix s tok" by (simp add: HasPrefix_def)
qed (simp add: HasPrefix_def)

lemma occurrences_Cons:
  "occurrences (c # cs) tok =
     (if HasPrefix (c # cs) tok then [0] else []) @ map Suc (occurrences cs tok)"
proof -
  have u: "[0..<Suc (length (c # cs))] = 0 # map Suc [0..<Suc (length cs)]"
    by (simp add: upt_conv_Cons map_Suc_upt del: upt_Suc)
  show ?thesis
    unfolding occurrences_def u
    by (simp add: filter_map comp_def take_eq_HasPrefix del: upt_Suc)
qed

lemma LastIndex_rightmost: "LastIndex s tok = rightmost s tok"
proof (induction s)
  case Nil
  show ?case by (simp add: rightmost_def occurrences_Nil)
next
  case (Cons c cs)
  show ?case
  proof (cases "occurrences cs tok = []")
    case True
    with Cons show ?thesis by (simp add: rightmost_def occurrences_Cons)
  next
    case False
    with Cons show ?thesis by (simp add: rightmost_def occurrences_Cons last_map)
  qed
qed

lemma sint_scan_copy:
  "sint (scan_copy B acc C) =
     (case copy_number B C of None \<Rightarrow> sint acc | Some n \<Rightarrow> max (sint acc) n)"
  by (auto simp: scan_copy_def copy_number_def Let_def LastIndex_rightmost word_sless_alt
           split: option.splits)

lemma Max_insert_max:
  "finite S \<Longrightarrow> Max (insert (max a n) S) = Max (insert a (insert (n::int) S))"
  by (cases "S = {}") (simp_all add: max.assoc)

lemma sint_foldl_scan_copy:
  "sint (foldl (scan_copy B) acc names) =
     Max (insert (sint acc) (set (List.map_filter (copy_number B) names)))"
proof (induction names arbitrary: acc)
  case Nil
  show ?case by (simp add: List.map_filter_simps)
next
  case (Cons C names)
  show ?case
  proof (cases "copy_number B C")
    case None
    then show ?thesis by (simp add: Cons List.map_filter_simps sint_scan_copy)
  next
    case (Some n)
    then show ?thesis
      by (simp add: Cons List.map_filter_simps sint_scan_copy Max_insert_max)
  qed
qed

lemma sint_latest_copy:
  "sint (latest_copy names F) = Max (insert 0 (set (copy_numbers names F)))"
  by (simp add: latest_copy_def copy_numbers_def sint_foldl_scan_copy)

lemma max_0_max_copy_number:
  "max 0 (max_copy_number names F) = Max (insert 0 (set (copy_numbers names F)))"
  by (simp add: max_copy_number_def)

lemma foldl_store:
  "foldl (\<lambda>m filename. m(filename \<mapsto> g filename)) m0 names F =
     (if F \<in> set names then Some (g F) else m0 F)"
  by (induction names arbitrary: m0) auto

lemma index_NewFileIndexFromSlice:
  "index (NewFileIndexFromSlice names) F =
     (if F \<in> set names then Some (latest_copy names F) else None)"
  by (simp add: NewFileIndexFromSlice_def foldl_store)

lemma latest_copy_cong:
  assumes "set xs = set ys"
  shows "latest_copy xs F = latest_copy ys F"
proof -
  have "set (copy_numbers xs F) = set (copy_numbers ys F)"
    using assms by (simp add: copy_numbers_def List.map_filter_def)
  then have "sint (latest_copy xs F) = sint (latest_copy ys F)"
    by (simp add: sint_latest_copy)
  then show ?thesis by (rule signed_word_eqI)
qed

text \<open>
  Claim C4, amended. \<^verbatim>\<open>NewFileIndexFromSlice\<close> stores a counter for each input filename
  \<open>F\<close> and for no other name. Read as a signed integer, the counter is the larger of 0
  and the maximum copy number found over the input names that start with the base of
  \<open>F\<close> (\<^const>\<open>max_copy_number\<close>, \<^const>\<open>copy_number\<close>): a name whose tail parses to a
  negative integer never brings the counter below 0.
\<close>
theorem seeded_counter:
  "map_option sint (index (NewFileIndexFromSlice names) F) =
     (if F \<in> set names then Some (max 0 (max_copy_number names F)) else None)"
  by (simp add: index_NewFileIndexFromSlice sint_latest_copy max_0_max_copy_number)

text \<open>
  The amended C4 on \<^verbatim>\<open>report.txt\<close>, \<^verbatim>\<open>report_copy2.txt\<close>, \<^verbatim>\<open>report_copyX.txt\<close>: a
  name of the input and a name outside it.
\<close>
theorem seeded_counter_witness:
  "''report.txt'' \<in> set [''report.txt'', ''report_copy2.txt'', ''report_copyX.txt'']
   \<and> max_copy_number [''report.txt'', ''report_copy2.txt'', ''report_copyX.txt''] ''report.txt'' = 2
   \<and> map_option sint (index (NewFileIndexFromSlice
         [''report.txt'', ''report_copy2.txt'', ''report_copyX.txt'']) ''report.txt'') = Some 2
   \<and> map_option sint (index (NewFileIndexFromSlice
         [''report.txt'', ''report_copy2.txt'', ''report_copyX.txt'']) ''other.txt'') = None"
proof -
  have m: "max_copy_number [''report.txt'', ''report_copy2.txt'', ''report_copyX.txt''] ''report.txt'' = 2"
    by code_simp
  show ?thesis
    using seeded_counter [of "[''report.txt'', ''report_copy2.txt'', ''report_copyX.txt'']" "''report.txt''"]
          seeded_counter [of "[''report.txt'', ''report_copy2.txt'', ''report_copyX.txt'']" "''other.txt''"]
    by (simp add: m)
qed

text \<open>
  C4 as stated fails on \<^verbatim>\<open>a.txt\<close>, \<^verbatim>\<open>a_copy-5.txt\<close>: the one copy number found for
  \<^verbatim>\<open>a.txt\<close> is \<open>- 5\<close>, and the counter stored is 0.
\<close>
theorem negative_copy_number_counterexample:
  "max_copy_number [''a.txt'', ''a_copy-5.txt''] ''a.txt'' = - 5
   \<and> map_option sint (index (NewFileIndexFromSlice [''a.txt'', ''a_copy-5.txt'']) ''a.txt'') = Some 0
   \<and> map_option sint (index (NewFileIndexFromSlice [''a.txt'', ''a_copy-5.txt'']) ''a.txt'')
       \<noteq> Some (max_copy_number [''a.txt'', ''a_copy-5.txt''] ''a.txt'')"
  by code_simp

lemma eval_latest_copy_a: "latest_copy [''a.txt'', ''a_copy3.txt'', ''b.txt''] ''a.txt'' = 3"
  by code_simp
lemma eval_latest_copy_b: "latest_copy [''a.txt'', ''a_copy3.txt'', ''b.txt''] ''b.txt'' = 0"
  by code_simp
lemma eval_latest_copy_a3: "latest_copy [''a.txt'', ''a_copy3.txt'', ''b.txt''] ''a_copy3.txt'' = 0"
  by code_simp

text \<open>
  Claim C5. Seeding from the names \<^verbatim>\<open>a.txt\<close>, \<^verbatim>\<open>a_copy3.txt\<close>, \<^verbatim>\<open>b.txt\<close>, in any
  order, records counter 3 for \<^verbatim>\<open>a.txt\<close> and counter 0 for \<^verbatim>\<open>b.txt\<close> and for
  \<^verbatim>\<open>a_copy3.txt\<close>.
\<close>
theorem seed_example:
  assumes "set names = {''a.txt'', ''a_copy3.txt'', ''b.txt''}"
  shows "index (NewFileIndexFromSlice names) ''a.txt'' = Some 3
         \<and> index (NewFileIndexFromSlice names) ''b.txt'' = Some 0
         \<and> index (NewFileIndexFromSlice names) ''a_copy3.txt'' = Some 0"
proof -
  have s: "set names = set [''a.txt'', ''a_copy3.txt'', ''b.txt'']" using assms by simp
  show ?thesis
    unfolding index_NewFileIndexFromSlice latest_copy_cong [OF s]
    by (simp add: assms eval_latest_copy_a eval_latest_copy_b eval_latest_copy_a3)
qed

text \<open>C5 on the slice \<^verbatim>\<open>b.txt\<close>, \<^verbatim>\<open>a_copy3.txt\<close>, \<^verbatim>\<open>a.txt\<close>.\<close>
theorem seed_example_witness:
  "set [''b.txt'', ''a_copy3.txt'', ''a.txt''] = {''a.txt'', ''a_copy3.txt'', ''b.txt''}
   \<and> index (NewFileIndexFromSlice [''b.txt'', ''a_copy3.txt'', ''a.txt'']) ''a.txt'' = Some 3
   \<and> index (NewFileIndexFromSlice [''b.txt'', ''a_copy3.txt'', ''a.txt'']) ''b.txt'' = Some 0
   \<and> index (NewFileIndexFromSlice [''b.txt'', ''a_copy3.txt'', ''a.txt'']) ''a_copy3.txt'' = Some 0"
proof -
  have s: "set [''b.txt'', ''a_copy3.txt'', ''a.txt''] = {''a.txt'', ''a_copy3.txt'', ''b.txt''}"
    by auto
  from seed_example [OF s] s show ?thesis by simp
qed

section \<open>A counter at the largest int\<close>

lemma digit_char_eval:
  "digit_char 0 = CHR ''0'' \<and> digit_char 1 = CHR ''1'' \<and> digit_char 2 = CHR ''2''
   \<and> digit_char 3 = CHR ''3'' \<and> digit_char 4 = CHR ''4'' \<and> digit_char 5 = CHR ''5''
   \<and> digit_char 6 = CHR ''6'' \<and> digit_char 7 = CHR ''7'' \<and> digit_char 8 = CHR ''8''
   \<and> digit_char 9 = CHR ''9''"
  by code_simp

lemma eval_digits_of_2_63: "digits_of 9223372036854775808 = ''9223372036854775808''"
  by (simp add: digits_of.simps digit_char_eval)

lemma eval_format_d_wrapped: "format_d (9223372036854775807 + 1) = ''-9223372036854775808''"
  by (simp add: format_d_def eval_digits_of_2_63)

lemma eval_Atoi_max: "Atoi ''9223372036854775807'' = Some 9223372036854775807"
  by (simp add: Atoi_def digit_val_def)

lemma eval_seed_max:
  "index (NewFileIndexFromSlice [''a.txt'', ''a_copy9223372036854775807.txt'']) ''a.txt''
     = Some 9223372036854775807"
proof -
  have o: "LastIndex ''_copy9223372036854775807'' ''_copy'' = Some 0"
    by (simp add: HasPrefix_def)
  have e1: "getBareFilename ''.txt'' = []"
    by code_simp
  have e2: "getBareFilename ''_copy9223372036854775807.txt'' = ''_copy9223372036854775807''"
    by code_simp
  have l: "LastIndex [] ''_copy'' = None"
    by simp
  have "latest_copy [''a.txt'', ''a_copy9223372036854775807.txt''] ''a.txt'' = 9223372036854775807"
    by (simp add: latest_copy_def scan_copy_def eval_bare_a_txt HasPrefix_def e1 e2 o l
                  copySuffix_def eval_Atoi_max word_sless_alt del: LastIndex.simps)
  then show ?thesis by (simp add: index_NewFileIndexFromSlice)
qed

text \<open>
  C3 as stated fails at the largest \<^verbatim>\<open>int\<close>, a counter that seeding from
  \<^verbatim>\<open>a.txt\<close> and \<^verbatim>\<open>a_copy9223372036854775807.txt\<close> stores for \<^verbatim>\<open>a.txt\<close>: the name
  returned carries \<open>- 9223372036854775808\<close>, not \<open>9223372036854775808\<close>, and the counter
  stored under \<^verbatim>\<open>a.txt\<close> is that negative number.
\<close>
theorem counter_wraps_counterexample:
  "index (NewFileIndexFromSlice [''a.txt'', ''a_copy9223372036854775807.txt'']) ''a.txt''
     = Some 9223372036854775807
   \<and> sint (9223372036854775807 :: go_int) = 9223372036854775807
   \<and> fst (Resolve (NewFileIndexFromSlice [''a.txt'', ''a_copy9223372036854775807.txt'']) ''a.txt'')
       = ''a_copy-9223372036854775808.txt''
   \<and> map_option sint
         (index (snd (Resolve (NewFileIndexFromSlice [''a.txt'', ''a_copy9223372036854775807.txt''])
                       ''a.txt'')) ''a.txt'')
       = Some (- 9223372036854775808)
   \<and> fst (Resolve (NewFileIndexFromSlice [''a.txt'', ''a_copy9223372036854775807.txt'']) ''a.txt'')
       \<noteq> ''a_copy9223372036854775808.txt''
   \<and> map_option sint
         (index (snd (Resolve (NewFileIndexFromSlice [''a.txt'', ''a_copy9223372036854775807.txt''])
                       ''a.txt'')) ''a.txt'')
       \<noteq> Some (sint (9223372036854775807 :: go_int) + 1)"
proof -
  let ?fi = "NewFileIndexFromSlice [''a.txt'', ''a_copy9223372036854775807.txt'']"
  have r: "Resolve ?fi ''a.txt'' =
             (candidate ''a.txt'' (9223372036854775807 + 1),
              ?fi\<lparr>index := (index ?fi)(''a.txt'' \<mapsto> 9223372036854775807 + 1,
                                        candidate ''a.txt'' (9223372036854775807 + 1) \<mapsto> 0)\<rparr>)"
    using eval_seed_max by (rule Resolve_present)
  have c: "candidate ''a.txt'' (9223372036854775807 + 1) = ''a_copy-9223372036854775808.txt''"
    unfolding candidate_def eval_format_d_wrapped
    by (simp add: eval_bare_a_txt eval_Ext_a_txt copySuffix_def)
  have s: "sint ((9223372036854775807 :: go_int) + 1) = - 9223372036854775808"
    by simp
  have n: "candidate ''a.txt'' (9223372036854775807 + 1) \<noteq> ''a.txt''"
    by (rule candidate_neq)
  have i: "index (snd (Resolve ?fi ''a.txt'')) ''a.txt'' = Some (9223372036854775807 + 1)"
    unfolding r using n by simp
  have f: "fst (Resolve ?fi ''a.txt'') = ''a_copy-9223372036854775808.txt''"
    unfolding r c by simp
  show ?thesis
    unfolding i f using eval_seed_max s by simp
qed

section \<open>Receiving a file\<close>

lemma fidx_log_print [simp]: "fidx (log_print m w) = fidx w"
  by (simp add: log_print_def)

lemma disk_log_print [simp]: "disk (log_print m w) = disk w"
  by (simp add: log_print_def)

lemma sent_log_print [simp]: "sent (log_print m w) = sent w"
  by (simp add: log_print_def)

lemma closed_log_print [simp]: "closed (log_print m w) = closed w"
  by (simp add: log_print_def)

lemma logged_log_print [simp]: "logged (log_print m w) = logged w @ [m]"
  by (simp add: log_print_def)

lemma fidx_file_write [simp]: "fidx (file_write name bytes w) = fidx w"
  by (simp add: file_write_def)

lemma sent_file_write [simp]: "sent (file_write name bytes w) = sent w"
  by (simp add: file_write_def)

lemma closed_file_write [simp]: "closed (file_write name bytes w) = closed w"
  by (simp add: file_write_def)

lemma logged_file_write [simp]: "logged (file_write name bytes w) = logged w"
  by (simp add: file_write_def)

lemma disk_file_write:
  "disk (file_write name bytes w) =
     (disk w)(name \<mapsto> (case disk w name of None \<Rightarrow> bytes | Some old \<Rightarrow> old @ bytes))"
  by (simp add: file_write_def)

lemma receive_loop_fidx: "fidx (snd (receive_loop name rs n w)) = fidx w"
  by (induction rs arbitrary: n w) (auto split: option.splits)

lemma receive_loop_sent: "sent (snd (receive_loop name rs n w)) = sent w"
  by (induction rs arbitrary: n w) (auto split: option.splits)

lemma receive_loop_logged:
  "m \<in> set (logged w) \<Longrightarrow> m \<in> set (logged (snd (receive_loop name rs n w)))"
  by (induction rs arbitrary: n w) (auto split: option.splits)

lemma receive_loop_dom:
  "name \<in> dom (disk w) \<Longrightarrow> name \<in> dom (disk (snd (receive_loop name rs n w)))"
  by (induction rs arbitrary: n w) (auto simp: disk_file_write split: option.splits)

lemma receive_loop_same:
  "disk w = disk v \<Longrightarrow> closed w = closed v \<Longrightarrow>
   fst (receive_loop name rs n w) = fst (receive_loop name rs n v)
   \<and> disk (snd (receive_loop name rs n w)) = disk (snd (receive_loop name rs n v))
   \<and> closed (snd (receive_loop name rs n w)) = closed (snd (receive_loop name rs n v))"
proof (induction rs arbitrary: n w v)
  case Nil
  then show ?case by simp
next
  case (Cons r rs)
  show ?case
  proof (cases "data r = [] \<or> write_fail r \<noteq> None")
    case True
    with Cons.prems show ?thesis by (auto simp: disk_file_write)
  next
    case False
    have "disk (file_write name (data r) w) = disk (file_write name (data r) v)"
      using Cons.prems by (simp add: disk_file_write)
    from Cons.IH [OF this, of "n + of_nat (length (data r))"] Cons.prems False
    show ?thesis by simp
  qed
qed

lemma receive_loop_clean:
  "[] \<notin> set chunks \<Longrightarrow> disk w name = Some old \<Longrightarrow>
   \<exists>n' w'. receive_loop name (clean_stream chunks) n w = (Finished n', w')
           \<and> disk w' name = Some (old @ concat chunks)"
proof (induction chunks arbitrary: n w old)
  case Nil
  then show ?case by (simp add: clean_stream_def)
next
  case (Cons d ds)
  have d: "d \<noteq> []" and ds: "[] \<notin> set ds" using Cons.prems(1) by auto
  have "disk (file_write name d w) name = Some (old @ d)"
    using Cons.prems(2) by (simp add: disk_file_write)
  from Cons.IH [OF ds this, of "n + of_nat (length d)"] d
  show ?case by (simp add: clean_stream_def)
qed

text \<open>
  Claim C8. When reading the filename token fails, \<^verbatim>\<open>receiveFile\<close> returns; the files,
  the bytes sent on the connection and the index (map and counters) are what they were
  before the connection. It logs one line and closes the connection.
\<close>
theorem header_error_leaves_no_trace:
  assumes "scan c = None"
  shows "fst (receiveFile c w) = Returned
         \<and> fidx (snd (receiveFile c w)) = fidx w
         \<and> disk (snd (receiveFile c w)) = disk w
         \<and> sent (snd (receiveFile c w)) = sent w
         \<and> logged (snd (receiveFile c w)) = logged w @ [CouldNotReadName]
         \<and> closed (snd (receiveFile c w))"
  using assms by (simp add: receiveFile_def)


lemma store_stream_fidx: "fidx (snd (store_stream c name w)) = fidx w"
proof (cases "create_err c")
  case True
  then show ?thesis by (simp add: store_stream_def)
next
  case False
  let ?w = "log_print (Receiving name) (w\<lparr>disk := (disk w)(name \<mapsto> [])\<rparr>)"
  have "fidx (snd (receive_loop name (reads c) 0 ?w)) = fidx w"
    by (simp add: receive_loop_fidx)
  with False show ?thesis
    by (cases "receive_loop name (reads c) 0 ?w")
       (auto simp: store_stream_def split: loop_end.splits)
qed

lemma store_stream_sent: "sent (snd (store_stream c name w)) = sent w"
proof (cases "create_err c")
  case True
  then show ?thesis by (simp add: store_stream_def)
next
  case False
  let ?w = "log_print (Receiving name) (w\<lparr>disk := (disk w)(name \<mapsto> [])\<rparr>)"
  have "sent (snd (receive_loop name (reads c) 0 ?w)) = sent w"
    by (simp add: receive_loop_sent)
  with False show ?thesis
    by (cases "receive_loop name (reads c) 0 ?w")
       (auto simp: store_stream_def split: loop_end.splits)
qed

lemma store_stream_logged:
  assumes "m \<in> set (logged w)"
  shows "m \<in> set (logged (snd (store_stream c name w)))"
proof (cases "create_err c")
  case True
  with assms show ?thesis by (simp add: store_stream_def)
next
  case False
  let ?w = "log_print (Receiving name) (w\<lparr>disk := (disk w)(name \<mapsto> [])\<rparr>)"
  have "m \<in> set (logged ?w)" using assms by simp
  then have "m \<in> set (logged (snd (receive_loop name (reads c) 0 ?w)))"
    by (rule receive_loop_logged)
  with False show ?thesis
    by (cases "receive_loop name (reads c) 0 ?w")
       (auto simp: store_stream_def split: loop_end.splits)
qed

lemma store_stream_dom:
  assumes "\<not> create_err c"
  shows "name \<in> dom (disk (snd (store_stream c name w)))"
proof -
  let ?w = "log_print (Receiving name) (w\<lparr>disk := (disk w)(name \<mapsto> [])\<rparr>)"
  have "name \<in> dom (disk ?w)" by simp
  then have "name \<in> dom (disk (snd (receive_loop name (reads c) 0 ?w)))"
    by (rule receive_loop_dom)
  with assms show ?thesis
    by (cases "receive_loop name (reads c) 0 ?w")
       (auto simp: store_stream_def split: loop_end.splits)
qed

lemma store_stream_same:
  assumes "disk w = disk v" and "closed w = closed v"
    and "create_err c = create_err c'" and "reads c = reads c'"
  shows "fst (store_stream c name w) = fst (store_stream c' name v)
         \<and> disk (snd (store_stream c name w)) = disk (snd (store_stream c' name v))
         \<and> closed (snd (store_stream c name w)) = closed (snd (store_stream c' name v))"
proof (cases "create_err c")
  case True
  with assms show ?thesis by (simp add: store_stream_def)
next
  case False
  let ?w = "log_print (Receiving name) (w\<lparr>disk := (disk w)(name \<mapsto> [])\<rparr>)"
  let ?v = "log_print (Receiving name) (v\<lparr>disk := (disk v)(name \<mapsto> [])\<rparr>)"
  have "disk ?w = disk ?v" "closed ?w = closed ?v" using assms by simp_all
  from receive_loop_same [OF this, of name "reads c" 0] False assms(3,4)
  show ?thesis
    by (cases "receive_loop name (reads c) 0 ?w"; cases "receive_loop name (reads c) 0 ?v")
       (auto simp: store_stream_def split: loop_end.splits)
qed

lemma store_stream_clean:
  assumes "\<not> create_err c" and "reads c = clean_stream chunks" and "[] \<notin> set chunks"
  shows "fst (store_stream c name w) = Returned
         \<and> disk (snd (store_stream c name w)) name = Some (concat chunks)"
proof -
  let ?w = "log_print (Receiving name) (w\<lparr>disk := (disk w)(name \<mapsto> [])\<rparr>)"
  have "disk ?w name = Some []" by simp
  from receive_loop_clean [OF assms(3) this, of 0]
  obtain n' w' where "receive_loop name (clean_stream chunks) 0 ?w = (Finished n', w')"
    and "disk w' name = Some (concat chunks)" by auto
  with assms(1,2) show ?thesis by (simp add: store_stream_def)
qed

lemma receiveFile_scanned:
  assumes "scan c = Some filename"
  shows "receiveFile c w =
           store_stream c (fst (Resolve (fidx w) filename))
             (if send_err c
              then log_print CouldNotSendName (w\<lparr>fidx := snd (Resolve (fidx w) filename)\<rparr>)
              else w\<lparr>fidx := snd (Resolve (fidx w) filename),
                     sent := sent w @ fst (Resolve (fidx w) filename)\<rparr>)"
  using assms by (simp add: receiveFile_def split_beta Let_def)

text \<open>
  Claim C9. When writing the resolved name back fails, \<^verbatim>\<open>receiveFile\<close> logs the failure
  and goes on: the index is the one \<^verbatim>\<open>Resolve\<close> left, and the handler ends as it does,
  with the same files, when the write succeeds. Unless \<^verbatim>\<open>os.Create\<close> fails, the file
  of the resolved name exists afterwards, and a stream that arrives whole is stored in
  it whole.
\<close>
theorem send_failure_does_not_abort:
  assumes "scan c = Some filename" and "send_err c"
  shows "let serverFilename = fst (Resolve (fidx w) filename);
             (st, w') = receiveFile c w;
             (st0, w0) = receiveFile (c\<lparr>send_err := False\<rparr>) w
         in CouldNotSendName \<in> set (logged w')
            \<and> sent w' = sent w
            \<and> fidx w' = snd (Resolve (fidx w) filename)
            \<and> st = st0 \<and> disk w' = disk w0 \<and> closed w' = closed w0
            \<and> (\<not> create_err c \<longrightarrow> serverFilename \<in> dom (disk w'))
            \<and> (\<not> create_err c \<and> reads c = clean_stream chunks \<and> [] \<notin> set chunks \<longrightarrow>
                  st = Returned \<and> disk w' serverFilename = Some (concat chunks))"
proof -
  let ?name = "fst (Resolve (fidx w) filename)"
  let ?fi = "snd (Resolve (fidx w) filename)"
  let ?w2 = "log_print CouldNotSendName (w\<lparr>fidx := ?fi\<rparr>)"
  let ?v2 = "w\<lparr>fidx := ?fi, sent := sent w @ ?name\<rparr>"
  let ?c0 = "c\<lparr>send_err := False\<rparr>"
  have r: "receiveFile c w = store_stream c ?name ?w2"
    using receiveFile_scanned [OF assms(1), of w] assms(2) by simp
  have "scan ?c0 = Some filename" using assms(1) by simp
  from receiveFile_scanned [OF this, of w]
  have r0: "receiveFile ?c0 w = store_stream ?c0 ?name ?v2" by simp
  have l: "CouldNotSendName \<in> set (logged (snd (store_stream c ?name ?w2)))"
    by (rule store_stream_logged) simp
  have f: "fidx (snd (store_stream c ?name ?w2)) = ?fi"
    by (simp add: store_stream_fidx)
  have s: "fst (store_stream c ?name ?w2) = fst (store_stream ?c0 ?name ?v2)
           \<and> disk (snd (store_stream c ?name ?w2)) = disk (snd (store_stream ?c0 ?name ?v2))
           \<and> closed (snd (store_stream c ?name ?w2)) = closed (snd (store_stream ?c0 ?name ?v2))"
    by (rule store_stream_same) simp_all
  have d: "?name \<in> dom (disk (snd (store_stream c ?name ?w2)))" if "\<not> create_err c"
    using that by (rule store_stream_dom)
  have k: "fst (store_stream c ?name ?w2) = Returned
           \<and> disk (snd (store_stream c ?name ?w2)) ?name = Some (concat chunks)"
    if "\<not> create_err c" "reads c = clean_stream chunks" "[] \<notin> set chunks"
    using that by (rule store_stream_clean)
  have t: "sent (snd (store_stream c ?name ?w2)) = sent w"
    by (simp add: store_stream_sent)
  show ?thesis
    unfolding r r0 Let_def split_beta using l f s d k t by blast
qed


text \<open>C8 on a connection closed before any token, with \<^verbatim>\<open>a.txt\<close> in the index.\<close>
theorem header_error_leaves_no_trace_witness:
  "scan \<lparr>scan = None, send_err = False, create_err = False, reads = [], close_err = False\<rparr> = None
   \<and> receiveFile \<lparr>scan = None, send_err = False, create_err = False, reads = [], close_err = False\<rparr>
        \<lparr>fidx = \<lparr>index = [''a.txt'' \<mapsto> 2]\<rparr>, disk = [''a.txt'' \<mapsto> ''x''], sent = [], logged = [],
         closed = False\<rparr>
      = (Returned,
         \<lparr>fidx = \<lparr>index = [''a.txt'' \<mapsto> 2]\<rparr>, disk = [''a.txt'' \<mapsto> ''x''], sent = [],
          logged = [CouldNotReadName], closed = True\<rparr>)"
  using header_error_leaves_no_trace
          [of "\<lparr>scan = None, send_err = False, create_err = False, reads = [], close_err = False\<rparr>"
              "\<lparr>fidx = \<lparr>index = [''a.txt'' \<mapsto> 2]\<rparr>, disk = [''a.txt'' \<mapsto> ''x''], sent = [],
                logged = [], closed = False\<rparr>"]
  by (simp add: prod_eq_iff)

lemma eval_Resolve_a_txt:
  "Resolve \<lparr>index = [''a.txt'' \<mapsto> 0]\<rparr> ''a.txt''
     = (''a_copy1.txt'', \<lparr>index = [''a.txt'' \<mapsto> 1, ''a_copy1.txt'' \<mapsto> 0]\<rparr>)"
proof -
  have "index \<lparr>index = [''a.txt'' \<mapsto> 0]\<rparr> ''a.txt'' = Some 0" by simp
  from Resolve_present [OF this] show ?thesis
    by (simp add: candidate_def eval_bare_a_txt eval_Ext_a_txt format_d_1 copySuffix_def)
qed

text \<open>
  C9 on a request for \<^verbatim>\<open>a.txt\<close>, already in the index, whose stream arrives in the
  two chunks \<^verbatim>\<open>he\<close> and \<^verbatim>\<open>llo\<close>.
\<close>
theorem send_failure_does_not_abort_witness:
  "let c = \<lparr>scan = Some ''a.txt'', send_err = True, create_err = False,
            reads = clean_stream [''he'', ''llo''], close_err = False\<rparr>;
       w = \<lparr>fidx = \<lparr>index = [''a.txt'' \<mapsto> 0]\<rparr>, disk = [''a.txt'' \<mapsto> ''x''], sent = [],
            logged = [], closed = False\<rparr>
   in scan c = Some ''a.txt'' \<and> send_err c \<and> \<not> create_err c
      \<and> [] \<notin> set [''he'', ''llo'']
      \<and> fst (receiveFile c w) = Returned
      \<and> CouldNotSendName \<in> set (logged (snd (receiveFile c w)))
      \<and> disk (snd (receiveFile c w)) ''a_copy1.txt'' = Some ''hello''
      \<and> index (fidx (snd (receiveFile c w))) ''a.txt'' = Some 1"
proof -
  let ?c = "\<lparr>scan = Some ''a.txt'', send_err = True, create_err = False,
             reads = clean_stream [''he'', ''llo''], close_err = False\<rparr>"
  let ?w = "\<lparr>fidx = \<lparr>index = [''a.txt'' \<mapsto> 0]\<rparr>, disk = [''a.txt'' \<mapsto> ''x''], sent = [],
             logged = [], closed = False\<rparr>"
  have h: "scan ?c = Some ''a.txt''" "send_err ?c" by simp_all
  have a: "\<not> create_err ?c \<and> reads ?c = clean_stream [''he'', ''llo''] \<and> [] \<notin> set [''he'', ''llo'']"
    by simp
  have r: "Resolve (fidx ?w) ''a.txt''
             = (''a_copy1.txt'', \<lparr>index = [''a.txt'' \<mapsto> 1, ''a_copy1.txt'' \<mapsto> 0]\<rparr>)"
    by (simp add: eval_Resolve_a_txt)
  from send_failure_does_not_abort [OF h, of ?w "[''he'', ''llo'']"] a
  have "fst (receiveFile ?c ?w) = Returned
        \<and> CouldNotSendName \<in> set (logged (snd (receiveFile ?c ?w)))
        \<and> disk (snd (receiveFile ?c ?w)) (fst (Resolve (fidx ?w) ''a.txt''))
            = Some (concat [''he'', ''llo''])
        \<and> fidx (snd (receiveFile ?c ?w)) = snd (Resolve (fidx ?w) ''a.txt'')"
    unfolding Let_def split_beta by blast
  then show ?thesis unfolding r Let_def by simp
qed

end
